theory Spec2Isabelle
  imports Main "HOL-Library.Word"
begin

section \<open>The round-robin rotator of roundrobin.go\<close>

text \<open>
  The model is sequential: \<open>Next\<close> runs under the instance's mutex, so every call sees the
  state its predecessor left, and the atomic loads, stores and adds are ordinary reads and
  writes of that state. The mutex itself is not a field of the model.

  Machine integers keep their width. \<open>uint32\<close> and \<open>int32\<close> are both 32-bit words:
  \<open>+\<close> wraps, \<open>unat\<close>/\<open>uint\<close> read a word as unsigned, \<open>sint\<close> as two's complement.
  Go's \<open>int\<close> is taken as 64 bits wide; the only \<open>int\<close> arithmetic of the package is
  \<open>int(nextItemIndex) - 1\<close> and a remainder by \<open>len(items)\<close>, whose values lie between
  \<open>-1\<close> and \<open>2^32 - 2\<close>, so it is written on \<open>int\<close>.
\<close>

subsection \<open>Data\<close>

type_synonym uint32 = "32 word"
type_synonym int32 = "32 word"

datatype error = ErrNoItems | PanicDivideByZero | PanicIndexOutOfRange

record Statistics =
  ServesCount :: int32

record Item =
  item_value :: string
  Statistics :: Statistics

record Options =
  RotateAmount :: int32

record RoundRobin =
  items :: "Item list"
  itemsMap :: "string set"
  nextItemIndex :: uint32
  currentItemServesCount :: uint32
  Options :: Options

subsection \<open>Integer conversions and operators of Go\<close>

text \<open>\<open>uint32(x)\<close> for an \<open>int32\<close> x: the value modulo \<open>2^32\<close>, that is the same bits.\<close>

definition uint32_of_int32 :: "int32 \<Rightarrow> uint32" where
  "uint32_of_int32 x = word_of_int (sint x)"

text \<open>\<open>int(x)\<close> for a \<open>uint32\<close> x on a 64-bit platform: the unsigned value.\<close>

definition int_of_uint32 :: "uint32 \<Rightarrow> int" where
  "int_of_uint32 x = uint x"

text \<open>Go's \<open>%\<close> truncates towards zero: the result has the sign of the dividend.\<close>

definition go_rem :: "int \<Rightarrow> int \<Rightarrow> int" where
  "go_rem a b = sgn a * (\<bar>a\<bar> mod \<bar>b\<bar>)"

subsection \<open>Item and Statistics\<close>

definition Value :: "Item \<Rightarrow> string" where
  "Value i = item_value i"

definition IncrementServesCount :: "int32 \<Rightarrow> Statistics \<Rightarrow> Statistics" where
  "IncrementServesCount v s = s\<lparr>ServesCount := ServesCount s + v\<rparr>"

definition ResetServesCount :: "Statistics \<Rightarrow> Statistics" where
  "ResetServesCount s = s\<lparr>ServesCount := 0\<rparr>"

subsection \<open>The registry\<close>

definition Items :: "RoundRobin \<Rightarrow> Item list" where
  "Items r = items r"

text \<open>
  One iteration of the loop of \<open>Add\<close>: \<open>LoadOrStore\<close> reports whether the key was there
  and stores it otherwise; only a key that was not there is appended to the slice.
\<close>

definition add_value :: "string \<Rightarrow> RoundRobin \<Rightarrow> RoundRobin" where
  "add_value v r =
     (let item = \<lparr>item_value = v, Statistics = \<lparr>ServesCount = 0\<rparr>\<rparr>;
          loaded = (v \<in> itemsMap r)
      in if \<not> loaded
         then r\<lparr>itemsMap := insert v (itemsMap r), items := items r @ [item]\<rparr>
         else r)"

fun Add :: "string list \<Rightarrow> RoundRobin \<Rightarrow> RoundRobin" where
  "Add [] r = r"
| "Add (v # values) r = Add values (add_value v r)"

subsection \<open>The rotator\<close>

text \<open>
  \<open>r.items[i].Statistics.IncrementServesCount(1)\<close> followed by \<open>return r.items[i]\<close>:
  indexing a slice outside \<open>0 \<le> i < len\<close> panics.
\<close>

definition serve :: "int \<Rightarrow> RoundRobin \<Rightarrow> error + (Item \<times> RoundRobin)" where
  "serve i r =
     (if 0 \<le> i \<and> i < int (length (items r))
      then let it = items r ! nat i;
               it' = it\<lparr>Statistics := IncrementServesCount 1 (Statistics it)\<rparr>;
               r' = r\<lparr>items := (items r)[nat i := it']\<rparr>
           in Inr (items r' ! nat i, r')
      else Inl PanicIndexOutOfRange)"

text \<open>
  The first half of \<open>Next\<close>: the serve count of the current item is loaded and
  compared with \<open>uint32(RotateAmount)\<close>; either the count restarts at 1 and the index
  moves on, or the count grows.
\<close>

definition advance :: "RoundRobin \<Rightarrow> RoundRobin" where
  "advance r =
     (let currentAmount = currentItemServesCount r
      in if currentAmount \<ge> uint32_of_int32 (RotateAmount (Options r))
         then r\<lparr>currentItemServesCount := 1, nextItemIndex := nextItemIndex r + 1\<rparr>
         else r\<lparr>currentItemServesCount := currentItemServesCount r + 1\<rparr>)"

text \<open>
  The second half: the remainder by \<open>len(r.items)\<close> panics on an empty slice; the guard
  sends a negative index, or one above the length, to the first item. A panic is the
  whole result: the counters written before it are not kept, and no property below reads
  a state after a panic.
\<close>

definition Next :: "RoundRobin \<Rightarrow> error + (Item \<times> RoundRobin)" where
  "Next r0 =
     (let r = advance r0
      in if length (items r) = 0 then Inl PanicDivideByZero
         else let idx = go_rem (int_of_uint32 (nextItemIndex r) - 1) (int (length (items r)))
              in if idx < 0 \<or> idx > int (length (items r))
                 then serve 0 r
                 else serve idx r)"

subsection \<open>Construction\<close>

definition DefaultOptions :: Options where
  "DefaultOptions = \<lparr>RotateAmount = 1\<rparr>"

text \<open>The zero value \<open>RoundRobin{Options: options}\<close>.\<close>

definition zero_RoundRobin :: "Options \<Rightarrow> RoundRobin" where
  "zero_RoundRobin options =
     \<lparr>items = [], itemsMap = {}, nextItemIndex = 0, currentItemServesCount = 0,
      Options = options\<rparr>"

definition NewWithOptions :: "Options \<Rightarrow> string list \<Rightarrow> error + RoundRobin" where
  "NewWithOptions options its =
     (if length its = 0 then Inl ErrNoItems
      else Inr ((Add its (zero_RoundRobin options))\<lparr>nextItemIndex := 1\<rparr>))"

definition New :: "string list \<Rightarrow> error + RoundRobin" where
  "New its = NewWithOptions DefaultOptions its"

subsection \<open>Sequential calls\<close>

text \<open>
  \<open>k\<close> calls of \<open>Next\<close> one after the other, as the loops of the tests make them; the
  result holds the items returned, in call order, and the state left behind. A panic ends
  the run.
\<close>

fun Next_n :: "nat \<Rightarrow> RoundRobin \<Rightarrow> error + (Item list \<times> RoundRobin)" where
  "Next_n 0 r = Inr ([], r)"
| "Next_n (Suc k) r =
     (case Next_n k r of
        Inl e \<Rightarrow> Inl e
      | Inr (served, r') \<Rightarrow>
          (case Next r' of
             Inl e \<Rightarrow> Inl e
           | Inr (it, r'') \<Rightarrow> Inr (served @ [it], r'')))"

text \<open>
  A constructed instance followed by \<open>k\<close> calls of \<open>Next\<close>, and what a caller reads
  from such a run: the values returned, one of them, the state left behind.
\<close>

definition calls :: "nat \<Rightarrow> error + RoundRobin \<Rightarrow> error + (Item list \<times> RoundRobin)" where
  "calls k c = (case c of Inl e \<Rightarrow> Inl e | Inr r \<Rightarrow> Next_n k r)"

definition returned :: "error + (Item list \<times> RoundRobin) \<Rightarrow> error + string list" where
  "returned res = map_sum id (\<lambda>(served, r). map Value served) res"

definition returned_at :: "nat \<Rightarrow> error + (Item list \<times> RoundRobin) \<Rightarrow> error + string" where
  "returned_at j res = map_sum id (\<lambda>(served, r). Value (served ! j)) res"

definition state_after :: "error + (Item list \<times> RoundRobin) \<Rightarrow> error + RoundRobin" where
  "state_after res = map_sum id snd res"

section \<open>Notions used by the properties\<close>

text \<open>
  The index \<open>Next\<close> computes for a state (the remainder, taken after the update of the
  counters), and the index it reads the slice at (after the guard).
\<close>

definition computed_index :: "RoundRobin \<Rightarrow> int" where
  "computed_index r =
     go_rem (int_of_uint32 (nextItemIndex (advance r)) - 1) (int (length (items r)))"

definition served_index :: "RoundRobin \<Rightarrow> nat" where
  "served_index r =
     (if computed_index r < 0 \<or> computed_index r > int (length (items r)) then 0
      else nat (computed_index r))"

text \<open>The position a cursor value \<open>c\<close> stands for in a registry of \<open>n\<close> items.\<close>

definition slot :: "uint32 \<Rightarrow> nat \<Rightarrow> nat" where
  "slot c n = (if c = 0 then 0 else (unat c - 1) mod n)"

text \<open>An item after one more serve, and the state a successful \<open>Next\<close> leaves.\<close>

definition bump :: "Item \<Rightarrow> Item" where
  "bump it = it\<lparr>Statistics := IncrementServesCount 1 (Statistics it)\<rparr>"

definition post :: "RoundRobin \<Rightarrow> RoundRobin" where
  "post r = (advance r)\<lparr>items := (items r)[served_index r := bump (items r ! served_index r)]\<rparr>"

text \<open>The sum of the serve counts of all items, each read as the \<open>int32\<close> it is.\<close>

definition total_serves :: "RoundRobin \<Rightarrow> int" where
  "total_serves r = sum_list (map (\<lambda>it. sint (ServesCount (Statistics it))) (Items r))"

text \<open>A list without its repetitions, every value at the place of its first occurrence.\<close>

fun first_seen :: "string list \<Rightarrow> string list" where
  "first_seen [] = []"
| "first_seen (v # vs) = v # first_seen (removeAll v vs)"

text \<open>
  The states a client can bring an instance to: it is constructed, values are added,
  \<open>Next\<close> is called, and the statistics of an item of the slice that \<open>Items\<close> hands out
  are incremented or reset through their exported methods.
\<close>

inductive reachable :: "RoundRobin \<Rightarrow> bool" where
  constructed: "NewWithOptions options its = Inr r \<Longrightarrow> reachable r"
| added: "reachable r \<Longrightarrow> reachable (Add vs r)"
| served: "reachable r \<Longrightarrow> Next r = Inr (it, r') \<Longrightarrow> reachable r'"
| incremented:
    "reachable r \<Longrightarrow> i < length (items r) \<Longrightarrow>
     reachable (r\<lparr>items := (items r)
        [i := (items r ! i)\<lparr>Statistics := IncrementServesCount v (Statistics (items r ! i))\<rparr>]\<rparr>)"
| reset:
    "reachable r \<Longrightarrow> i < length (items r) \<Longrightarrow>
     reachable (r\<lparr>items := (items r)
        [i := (items r ! i)\<lparr>Statistics := ResetServesCount (Statistics (items r ! i))\<rparr>]\<rparr>)"

text \<open>The item \<open>Add\<close> appends for a value: \<open>Item{value: value}\<close>.\<close>

definition new_item :: "string \<Rightarrow> Item" where
  "new_item v = \<lparr>item_value = v, Statistics = \<lparr>ServesCount = 0\<rparr>\<rparr>"

text \<open>
  What holds of the registry of every instance: it is not empty, the map holds the values
  of the slice, and no value is there twice.
\<close>

definition registry_inv :: "RoundRobin \<Rightarrow> bool" where
  "registry_inv r \<longleftrightarrow>
     items r \<noteq> [] \<and> itemsMap r = set (map item_value (items r)) \<and>
     distinct (map item_value (items r))"


text \<open>The same sum with every serve count read as an unsigned number.\<close>

definition serves_nat :: "RoundRobin \<Rightarrow> nat" where
  "serves_nat r = sum_list (map (\<lambda>it. unat (ServesCount (Statistics it))) (items r))"

text \<open>
  The position round-robin order gives the call number \<open>j + 1\<close> when every item is held
  for \<open>H\<close> calls and there are \<open>n\<close> items.
\<close>

definition cyc :: "nat \<Rightarrow> nat \<Rightarrow> nat \<Rightarrow> nat" where
  "cyc H n j = (j div H) mod n"

section \<open>Lemmas\<close>

subsection \<open>One call of Next\<close>

lemma uint32_of_int32_id [simp]: "uint32_of_int32 x = x"
  by (simp add: uint32_of_int32_def)

lemma items_advance [simp]: "items (advance r) = items r"
  and itemsMap_advance [simp]: "itemsMap (advance r) = itemsMap r"
  and Options_advance [simp]: "Options (advance r) = Options r"
  by (simp_all add: advance_def Let_def)

lemma go_rem_nonneg: "0 \<le> a \<Longrightarrow> 0 < b \<Longrightarrow> go_rem a b = a mod b"
  by (cases "a = 0") (simp_all add: go_rem_def)

lemma go_rem_minus_one: "0 < b \<Longrightarrow> go_rem (- 1) b = (if b = 1 then 0 else - 1)"
  by (simp add: go_rem_def)

lemma computed_index_bounds:
  assumes "items r \<noteq> []"
  shows "- int (length (items r)) < computed_index r"
    and "computed_index r < int (length (items r))"
proof -
  let ?n = "int (length (items r))"
  let ?a = "int_of_uint32 (nextItemIndex (advance r)) - 1"
  have n: "0 < ?n" using assms by simp
  have "\<bar>?a\<bar> mod \<bar>?n\<bar> < ?n" using n by simp
  moreover have "0 \<le> \<bar>?a\<bar> mod \<bar>?n\<bar>" using n by simp
  ultimately show "- ?n < computed_index r" and "computed_index r < ?n"
    unfolding computed_index_def go_rem_def
    by (cases "?a < 0"; cases "?a = 0"; simp)+
qed

lemma served_index_slot:
  assumes "items r \<noteq> []"
  shows "served_index r = slot (nextItemIndex (advance r)) (length (items r))"
proof (cases "nextItemIndex (advance r) = 0")
  case True
  then show ?thesis using assms
    by (simp add: served_index_def computed_index_def slot_def int_of_uint32_def
        go_rem_minus_one)
next
  case False
  let ?c = "nextItemIndex (advance r)"
  have pos: "0 < unat ?c" using False by (simp add: unat_gt_0)
  have n: "0 < int (length (items r))" using assms by simp
  have a: "uint ?c - 1 = int (unat ?c - 1)" using pos by simp
  have "computed_index r = int (unat ?c - 1) mod int (length (items r))"
    unfolding computed_index_def int_of_uint32_def a
    by (rule go_rem_nonneg) (use n in simp_all)
  also have "\<dots> = int ((unat ?c - 1) mod length (items r))"
    by (simp add: zmod_int)
  finally have ci: "computed_index r = int ((unat ?c - 1) mod length (items r))" .
  have "(unat ?c - 1) mod length (items r) < length (items r)" using assms by simp
  then show ?thesis using False by (simp add: served_index_def ci slot_def)
qed

lemma slot_less: "0 < n \<Longrightarrow> slot c n < n"
  by (simp add: slot_def)

lemma served_index_less: "items r \<noteq> [] \<Longrightarrow> served_index r < length (items r)"
  by (simp add: served_index_slot slot_less)

lemma Next_served:
  "Next r = (if items r = [] then Inl PanicDivideByZero
             else serve (int (served_index r)) (advance r))"
  by (auto simp: Next_def Let_def served_index_def computed_index_def)

lemma Next_post:
  assumes "items r \<noteq> []"
  shows "Next r = Inr (bump (items r ! served_index r), post r)"
  using assms served_index_less [OF assms]
  by (simp add: Next_served serve_def Let_def post_def bump_def)


lemma map_update_same:
  "map f (xs[i := g (xs ! i)]) = map f xs" if "f (g (xs ! i)) = f (xs ! i)"
proof (cases "i < length xs")
  case True
  then show ?thesis using that
    by (simp add: map_update list_update_same_conv)
next
  case False
  then have "xs[i := g (xs ! i)] = xs" by (intro list_update_beyond) simp
  then show ?thesis by simp
qed

lemma post_frame [simp]:
  "Options (post r) = Options r"
  "itemsMap (post r) = itemsMap r"
  "length (items (post r)) = length (items r)"
  "map item_value (items (post r)) = map item_value (items r)"
  "nextItemIndex (post r) = nextItemIndex (advance r)"
  "currentItemServesCount (post r) = currentItemServesCount (advance r)"
  by (simp_all add: post_def bump_def map_update_same)

lemma post_items_nonempty [simp]: "items (post r) = [] \<longleftrightarrow> items r = []"
  using post_frame(3) [of r] by (metis length_0_conv)

lemma funpow_post_frame [simp]:
  "Options ((post ^^ k) r) = Options r"
  "itemsMap ((post ^^ k) r) = itemsMap r"
  "length (items ((post ^^ k) r)) = length (items r)"
  "map item_value (items ((post ^^ k) r)) = map item_value (items r)"
  by (induction k) simp_all

lemma funpow_post_nonempty [simp]: "items ((post ^^ k) r) = [] \<longleftrightarrow> items r = []"
  using funpow_post_frame(3) [of k r] by (metis length_0_conv)

lemma Next_n_post:
  assumes "items r \<noteq> []"
  shows "Next_n k r =
    Inr (map (\<lambda>j. bump (items ((post ^^ j) r) ! served_index ((post ^^ j) r))) [0..<k],
         (post ^^ k) r)"
proof (induction k)
  case 0
  show ?case by simp
next
  case (Suc k)
  have "items ((post ^^ k) r) \<noteq> []" using assms by simp
  from Next_post [OF this] Suc show ?case by simp
qed


lemma advance_fields:
  "currentItemServesCount (advance r) =
     (if RotateAmount (Options r) \<le> currentItemServesCount r then 1
      else currentItemServesCount r + 1)"
  "nextItemIndex (advance r) =
     (if RotateAmount (Options r) \<le> currentItemServesCount r then nextItemIndex r + 1
      else nextItemIndex r)"
  by (simp_all add: advance_def Let_def)

lemma control_closed_form:
  fixes r :: RoundRobin
  defines "H \<equiv> unat (RotateAmount (Options r))"
  assumes fresh: "currentItemServesCount r = 0" and h: "RotateAmount (Options r) \<noteq> 0"
  shows "currentItemServesCount ((post ^^ k) r) = (if k = 0 then 0 else of_nat ((k - 1) mod H + 1))
       \<and> nextItemIndex ((post ^^ k) r) = nextItemIndex r + of_nat ((k - 1) div H)"
proof (induction k)
  case 0
  show ?case by (simp add: fresh)
next
  case (Suc k)
  let ?s = "(post ^^ k) r"
  have Hpos: "0 < H" using h by (simp add: H_def unat_gt_0)
  have Hlt: "H < 2 ^ 32" using unsigned_less [of "RotateAmount (Options r)"] by (simp add: H_def)
  have opts: "RotateAmount (Options ?s) = RotateAmount (Options r)" by simp
  show ?case
  proof (cases k)
    case 0
    have "\<not> RotateAmount (Options r) \<le> 0" using h by (simp add: word_le_nat_alt unat_gt_0 H_def)
    then show ?thesis using 0 by (simp add: advance_fields fresh)
  next
    case (Suc m)
    have rep: "currentItemServesCount ?s = of_nat (m mod H + 1)"
      and cur: "nextItemIndex ?s = nextItemIndex r + of_nat (m div H)"
      using Suc.IH Suc by simp_all
    have bound: "m mod H + 1 \<le> H" using Hpos by (simp add: Suc_leI)
    then have small: "m mod H + 1 < 2 ^ 32" using Hlt by linarith
    have un: "unat (of_nat (m mod H + 1) :: 32 word) = m mod H + 1"
      using small by (intro of_nat_inverse [OF refl]) simp
    have test: "RotateAmount (Options ?s) \<le> currentItemServesCount ?s \<longleftrightarrow> Suc (m mod H) = H"
      unfolding opts rep word_le_nat_alt un using bound by (auto simp: H_def)
    show ?thesis
    proof (cases "Suc (m mod H) = H")
      case True
      then have "Suc m mod H = 0" and "Suc m div H = Suc (m div H)"
        by (simp_all add: mod_Suc div_Suc)
      then show ?thesis using True test cur Suc
        by (simp add: advance_fields)
    next
      case False
      then have "Suc m mod H = Suc (m mod H)" and "Suc m div H = m div H"
        by (simp_all add: mod_Suc div_Suc)
      then show ?thesis using False test cur rep Suc
        by (simp add: advance_fields)
    qed
  qed
qed

subsection \<open>The registry\<close>

lemma new_item_fields [simp]:
  "item_value (new_item v) = v"
  "ServesCount (Statistics (new_item v)) = 0"
  by (simp_all add: new_item_def)

lemma item_value_comp_new_item [simp]: "item_value \<circ> new_item = id"
  by (rule ext) simp

lemma item_value_image_new_item [simp]: "item_value ` new_item ` S = S"
  by (simp add: image_image)

lemma first_seen_set [simp]: "set (first_seen vs) = set vs"
  by (induction vs rule: first_seen.induct) auto

lemma first_seen_distinct [simp]: "distinct (first_seen vs)"
  by (induction vs rule: first_seen.induct) auto

lemma first_seen_idem: "distinct vs \<Longrightarrow> first_seen vs = vs"
  by (induction vs) (simp_all add: removeAll_id)

lemma Add_fields [simp]:
  "nextItemIndex (Add vs r) = nextItemIndex r"
  "currentItemServesCount (Add vs r) = currentItemServesCount r"
  "Options (Add vs r) = Options r"
  by (induction vs arbitrary: r) (simp_all add: add_value_def Let_def)

lemma removeAll_filter: "removeAll v (filter P vs) = filter (\<lambda>u. u \<noteq> v \<and> P u) vs"
  by (induction vs) auto

lemma Add_items:
  "itemsMap r = set (map item_value (items r)) \<Longrightarrow>
   items (Add vs r) =
     items r @ map new_item (first_seen (filter (\<lambda>v. v \<notin> itemsMap r) vs))"
proof (induction vs arbitrary: r)
  case Nil
  show ?case by simp
next
  case (Cons v vs)
  show ?case
  proof (cases "v \<in> itemsMap r")
    case True
    then have "add_value v r = r" by (simp add: add_value_def)
    then show ?thesis using Cons True by simp
  next
    case False
    let ?r = "add_value v r"
    have r': "itemsMap ?r = insert v (itemsMap r)" "items ?r = items r @ [new_item v]"
      using False by (simp_all add: add_value_def new_item_def)
    have inv: "itemsMap ?r = set (map item_value (items ?r))"
      using Cons.prems by (simp add: r' new_item_def)
    show ?thesis using Cons.IH [OF inv] False by (simp add: r' removeAll_filter)
  qed
qed

lemma Add_itemsMap:
  "itemsMap (Add vs r) = itemsMap r \<union> set vs"
  by (induction vs arbitrary: r) (auto simp: add_value_def Let_def)

lemma Add_present:
  "set vs \<subseteq> itemsMap r \<Longrightarrow> Add vs r = r"
  by (induction vs arbitrary: r) (simp_all add: add_value_def)

lemma registry_inv_Add:
  assumes "itemsMap r = set (map item_value (items r))" "distinct (map item_value (items r))"
  shows "itemsMap (Add vs r) = set (map item_value (items (Add vs r)))"
    and "distinct (map item_value (items (Add vs r)))"
proof -
  have vals: "map item_value (items (Add vs r)) =
      map item_value (items r) @ first_seen (filter (\<lambda>v. v \<notin> itemsMap r) vs)"
    by (simp add: Add_items [OF assms(1)])
  show "itemsMap (Add vs r) = set (map item_value (items (Add vs r)))"
    unfolding vals Add_itemsMap using assms(1) by auto
  show "distinct (map item_value (items (Add vs r)))"
    unfolding vals using assms by auto
qed

lemma NewWithOptions_Inr:
  assumes "its \<noteq> []"
  shows "NewWithOptions options its =
     Inr \<lparr>items = map new_item (first_seen its), itemsMap = set its, nextItemIndex = 1,
          currentItemServesCount = 0, Options = options\<rparr>"
proof -
  let ?z = "zero_RoundRobin options"
  have z: "itemsMap ?z = set (map item_value (items ?z))" by (simp add: zero_RoundRobin_def)
  have "items (Add its ?z) = map new_item (first_seen its)"
    using Add_items [OF z, of its] by (simp add: zero_RoundRobin_def)
  moreover have "itemsMap (Add its ?z) = set its"
    by (simp add: Add_itemsMap zero_RoundRobin_def)
  moreover have "currentItemServesCount (Add its ?z) = 0" "Options (Add its ?z) = options"
    by (simp_all add: zero_RoundRobin_def)
  ultimately have "(Add its ?z)\<lparr>nextItemIndex := 1\<rparr> =
     \<lparr>items = map new_item (first_seen its), itemsMap = set its, nextItemIndex = 1,
          currentItemServesCount = 0, Options = options\<rparr>"
    by (cases "Add its ?z") simp
  then show ?thesis using assms by (simp add: NewWithOptions_def)
qed

lemma first_seen_Nil_iff [simp]: "first_seen vs = [] \<longleftrightarrow> vs = []"
  by (cases vs) simp_all

lemma registry_inv_new:
  "NewWithOptions options its = Inr r \<Longrightarrow> registry_inv r"
proof (cases "its = []")
  case True
  then show ?thesis if "NewWithOptions options its = Inr r"
    using that by (simp add: NewWithOptions_def)
next
  case False
  show ?thesis if "NewWithOptions options its = Inr r"
    using that False unfolding NewWithOptions_Inr [OF False]
    by (auto simp: registry_inv_def)
qed

lemma reachable_inv: "reachable r \<Longrightarrow> registry_inv r"
proof (induction rule: reachable.induct)
  case (constructed options its r)
  then show ?case by (rule registry_inv_new)
next
  case (added r vs)
  then have inv: "itemsMap r = set (map item_value (items r))" "distinct (map item_value (items r))"
    and ne: "items r \<noteq> []"
    by (simp_all add: registry_inv_def)
  have "items (Add vs r) \<noteq> []" using ne by (simp add: Add_items [OF inv(1)])
  then show ?case using registry_inv_Add [OF inv] by (simp add: registry_inv_def)
next
  case (served r it r')
  then have ne: "items r \<noteq> []" by (simp add: registry_inv_def)
  from Next_post [OF ne] served.hyps(2) have "r' = post r" by simp
  then show ?case using served.IH by (simp add: registry_inv_def)
next
  case (incremented r i v)
  then show ?case by (simp add: registry_inv_def map_update_same)
next
  case (reset r i)
  then show ?case by (simp add: registry_inv_def map_update_same)
qed


lemma Value_eq [simp]: "Value = item_value"
  by (rule ext) (simp add: Value_def)

lemma Items_eq [simp]: "Items = items"
  by (rule ext) (simp add: Items_def)

subsection \<open>Runs of Next\<close>

lemma item_value_bump [simp]: "item_value (bump it) = item_value it"
  by (simp add: bump_def)

lemma reachable_post: "reachable r \<Longrightarrow> reachable (post r)"
proof -
  assume r: "reachable r"
  then have "items r \<noteq> []" using reachable_inv by (simp add: registry_inv_def)
  from reachable.served [OF r Next_post [OF this]] show ?thesis .
qed

lemma reachable_funpow_post: "reachable r \<Longrightarrow> reachable ((post ^^ k) r)"
  by (induction k) (simp_all add: reachable_post)

text \<open>The run of a fresh instance with a hold amount that is not zero.\<close>

lemma fresh_run:
  fixes r :: RoundRobin
  defines "H \<equiv> unat (RotateAmount (Options r))"
  assumes ne: "items r \<noteq> []"
    and fresh: "currentItemServesCount r = 0" and h: "RotateAmount (Options r) \<noteq> 0"
  shows "\<exists>served. Next_n k r = Inr (served, (post ^^ k) r) \<and> length served = k \<and>
     (\<forall>j<k. item_value (served ! j) =
        map item_value (items r) ! slot (nextItemIndex r + of_nat (j div H)) (length (items r)))"
proof -
  let ?f = "\<lambda>j. bump (items ((post ^^ j) r) ! served_index ((post ^^ j) r))"
  have run: "Next_n k r = Inr (map ?f [0..<k], (post ^^ k) r)"
    by (rule Next_n_post [OF ne])
  have val: "item_value (items ((post ^^ j) r) ! served_index ((post ^^ j) r)) =
      map item_value (items r) ! slot (nextItemIndex r + of_nat (j div H)) (length (items r))" for j
  proof -
    let ?s = "(post ^^ j) r"
    have nes: "items ?s \<noteq> []" using ne by simp
    have "nextItemIndex (advance ?s) = nextItemIndex ((post ^^ Suc j) r)" by simp
    also have "\<dots> = nextItemIndex r + of_nat (j div H)"
      using control_closed_form [OF fresh h, of "Suc j"] by (simp add: H_def)
    finally have idx: "served_index ?s = slot (nextItemIndex r + of_nat (j div H)) (length (items r))"
      by (simp add: served_index_slot [OF nes])
    have lt: "served_index ?s < length (items ?s)" by (rule served_index_less [OF nes])
    have "item_value (items ?s ! served_index ?s) = map item_value (items ?s) ! served_index ?s"
      using lt by (rule nth_map [symmetric])
    also have "map item_value (items ?s) = map item_value (items r)" by simp
    finally show ?thesis unfolding idx .
  qed
  show ?thesis unfolding run by (simp add: val)
qed

lemma calls_New:
  assumes "its \<noteq> []" and h: "RotateAmount options \<noteq> 0"
  defines "r \<equiv> \<lparr>items = map new_item (first_seen its), itemsMap = set its, nextItemIndex = 1,
          currentItemServesCount = 0, Options = options\<rparr>"
  shows "\<exists>served. calls k (NewWithOptions options its) = Inr (served, (post ^^ k) r) \<and>
     length served = k \<and>
     (\<forall>j<k. Value (served ! j) =
        first_seen its ! slot (1 + of_nat (j div unat (RotateAmount options))) (length (first_seen its)))"
proof -
  have ne: "items r \<noteq> []" using assms(1) by (simp add: r_def)
  have "currentItemServesCount r = 0" "RotateAmount (Options r) \<noteq> 0"
    using h by (simp_all add: r_def)
  from fresh_run [OF ne this, of k] show ?thesis
    unfolding calls_def NewWithOptions_Inr [OF assms(1)] by (simp add: r_def)
qed

lemma cursor_after_calls:
  assumes "its \<noteq> []" and h: "RotateAmount options \<noteq> 0"
  shows "map_sum id nextItemIndex (state_after (calls k (NewWithOptions options its))) =
     Inr (1 + of_nat ((k - 1) div unat (RotateAmount options)))"
proof -
  let ?r = "\<lparr>items = map new_item (first_seen its), itemsMap = set its, nextItemIndex = 1,
          currentItemServesCount = 0, Options = options\<rparr>"
  have "currentItemServesCount ?r = 0" "RotateAmount (Options ?r) \<noteq> 0"
    using h by simp_all
  from control_closed_form [OF this, of k] calls_New [OF assms, of k]
  show ?thesis by (auto simp: state_after_def)
qed

lemma returned_at_calls:
  assumes "its \<noteq> []" and h: "RotateAmount options \<noteq> 0" and "j < k"
  shows "returned_at j (calls k (NewWithOptions options its)) =
     Inr (first_seen its ! slot (1 + of_nat (j div unat (RotateAmount options))) (length (first_seen its)))"
  using calls_New [OF assms(1,2), of k] assms(3) by (auto simp: returned_at_def)

lemma returned_at_ab:
  "j < k \<Longrightarrow>
   returned_at j (calls k (New [''a'', ''b''])) = Inr ([''a'', ''b''] ! slot (1 + of_nat j) 2)"
  using returned_at_calls [of "[''a'', ''b'']" DefaultOptions j k]
  by (simp add: New_def DefaultOptions_def numeral_2_eq_2)

lemma cursor_after_ab:
  "map_sum id nextItemIndex (state_after (calls k (New [''a'', ''b'']))) = Inr (1 + of_nat (k - 1))"
  using cursor_after_calls [of "[''a'', ''b'']" DefaultOptions k]
  by (simp add: New_def DefaultOptions_def)


lemma round_robin_six_calls:
  "returned (calls 6 (New [''item1'', ''item2'', ''item3''])) =
     Inr [''item1'', ''item2'', ''item3'', ''item1'', ''item2'', ''item3'']"
  by code_simp




lemma RotateAmount_DefaultOptions [simp]: "RotateAmount DefaultOptions = 1"
  by (simp add: DefaultOptions_def)

subsection \<open>Serve counts\<close>

lemma ServesCount_bump [simp]:
  "ServesCount (Statistics (bump it)) = ServesCount (Statistics it) + 1"
  by (simp add: bump_def IncrementServesCount_def)

lemma items_post:
  "items (post r) = (items r)[served_index r := bump (items r ! served_index r)]"
  by (simp add: post_def)

lemma sum_list_map_cong:
  "(\<And>x. x \<in> set xs \<Longrightarrow> f x = g x) \<Longrightarrow> sum_list (map f xs) = sum_list (map g xs)"
  by (induction xs) simp_all

lemma nth_le_sum_list:
  fixes xs :: "nat list"
  shows "i < length xs \<Longrightarrow> xs ! i \<le> sum_list xs"
  by (induction xs arbitrary: i) (auto simp: nth_Cons split: nat.splits intro: trans_le_add2)

lemma unat_le_serves_nat:
  "i < length (items r) \<Longrightarrow> unat (ServesCount (Statistics (items r ! i))) \<le> serves_nat r"
  using nth_le_sum_list [of i "map (\<lambda>it. unat (ServesCount (Statistics it))) (items r)"]
  by (simp add: serves_nat_def)

lemma unat_Suc_word:
  fixes w :: "32 word"
  assumes "unat w < 4294967295"
  shows "unat (w + 1) = unat w + 1"
  using assms by (simp add: unat_word_ariths)

lemma int_sum_list_map:
  "int (sum_list (map f xs)) = sum_list (map (\<lambda>x. int (f x)) xs)"
  by (induction xs) simp_all

lemma serves_nat_post:
  assumes ne: "items r \<noteq> []" and small: "serves_nat r < 4294967295"
  shows "serves_nat (post r) = Suc (serves_nat r)"
proof -
  let ?i = "served_index r"
  let ?f = "\<lambda>it. unat (ServesCount (Statistics it))"
  have lt: "?i < length (items r)" by (rule served_index_less [OF ne])
  have le: "?f (items r ! ?i) \<le> serves_nat r" by (rule unat_le_serves_nat [OF lt])
  then have "?f (items r ! ?i) < 4294967295" using small by (rule le_less_trans)
  then have inc: "?f (bump (items r ! ?i)) = ?f (items r ! ?i) + 1"
    by (simp add: unat_Suc_word)
  have "serves_nat (post r) = sum_list ((map ?f (items r))[?i := ?f (bump (items r ! ?i))])"
    by (simp only: serves_nat_def items_post map_update)
  also have "\<dots> = sum_list (map ?f (items r)) + ?f (bump (items r ! ?i)) - map ?f (items r) ! ?i"
    using lt by (simp only: sum_list_update length_map)
  also have "\<dots> = Suc (serves_nat r)"
    using lt le unfolding inc serves_nat_def by (simp only: nth_map)
  finally show ?thesis .
qed

lemma serves_nat_funpow_post:
  assumes ne: "items r \<noteq> []"
  shows "serves_nat r + k \<le> 4294967295 \<Longrightarrow> serves_nat ((post ^^ k) r) = serves_nat r + k"
proof (induction k)
  case 0
  show ?case by simp
next
  case (Suc k)
  from Suc.prems have le: "serves_nat r + k < 4294967295" by linarith
  then have IH: "serves_nat ((post ^^ k) r) = serves_nat r + k" using Suc.IH by linarith
  have nes: "items ((post ^^ k) r) \<noteq> []" using ne by simp
  have "serves_nat ((post ^^ k) r) < 4294967295" using le IH by linarith
  from serves_nat_post [OF nes this] IH show ?case by (simp only: funpow.simps o_apply)
qed

lemma sint_eq_unat_small:
  fixes w :: "32 word"
  assumes "unat w < 2147483648"
  shows "sint w = int (unat w)"
proof -
  have u: "uint w < 2147483648" using assms unfolding uint_nat by linarith
  have nonneg: "- 2147483648 \<le> uint w"
    using uint_ge_0 [of w] by linarith
  have "signed_take_bit 31 (uint w) = uint w"
    by (rule signed_take_bit_int_eq_self) (use u nonneg in simp_all)
  then have "sint w = uint w" by (simp add: sint_uint)
  then show ?thesis unfolding uint_nat .
qed

lemma total_serves_small:
  assumes "serves_nat r < 2147483648"
  shows "total_serves r = int (serves_nat r)"
proof -
  have "sint (ServesCount (Statistics it)) = int (unat (ServesCount (Statistics it)))"
    if "it \<in> set (items r)" for it
  proof -
    from that obtain i where i: "i < length (items r)" "it = items r ! i"
      by (auto simp: in_set_conv_nth)
    have "unat (ServesCount (Statistics it)) \<le> serves_nat r"
      unfolding i(2) by (rule unat_le_serves_nat [OF i(1)])
    then have "unat (ServesCount (Statistics it)) < 2147483648" using assms by (rule le_less_trans)
    then show ?thesis by (rule sint_eq_unat_small)
  qed
  then have "sum_list (map (\<lambda>it. sint (ServesCount (Statistics it))) (items r)) =
      sum_list (map (\<lambda>it. int (unat (ServesCount (Statistics it)))) (items r))"
    by (rule sum_list_map_cong)
  also have "\<dots> = int (serves_nat r)"
    unfolding serves_nat_def by (rule int_sum_list_map [symmetric])
  finally show ?thesis by (simp add: total_serves_def)
qed

lemma serves_nat_new:
  assumes "NewWithOptions options its = Inr r"
  shows "serves_nat r = 0"
proof (cases "its = []")
  case True
  with assms show ?thesis by (simp add: NewWithOptions_def)
next
  case False
  from assms show ?thesis unfolding NewWithOptions_Inr [OF False]
    by (auto simp: serves_nat_def)
qed

lemma single_item_run:
  assumes "length (items r) = 1"
  shows "ServesCount (Statistics (items ((post ^^ k) r) ! 0)) =
     ServesCount (Statistics (items r ! 0)) + of_nat k"
proof (induction k)
  case 0
  show ?case by simp
next
  case (Suc k)
  let ?s = "(post ^^ k) r"
  have len: "length (items ?s) = 1" using assms by simp
  then have nes: "items ?s \<noteq> []" by auto
  have "served_index ?s < 1" using served_index_less [OF nes] len by simp
  then have i: "served_index ?s = 0" by simp
  have "items (post ?s) ! 0 = bump (items ?s ! 0)"
    using len by (simp add: items_post i)
  then show ?case using Suc by simp
qed

lemma total_serves_single:
  assumes "length (items r) = 1"
  shows "total_serves r = sint (ServesCount (Statistics (items r ! 0)))"
proof -
  from assms obtain x where "items r = [x]" by (cases "items r") auto
  then show ?thesis by (simp add: total_serves_def)
qed

lemma total_serves_single_a:
  "map_sum id total_serves (state_after (calls k (New [''a'']))) = Inr (sint (of_nat k :: 32 word))"
proof -
  let ?r = "\<lparr>items = map new_item (first_seen [''a'']), itemsMap = set [''a''], nextItemIndex = 1,
          currentItemServesCount = 0, Options = DefaultOptions\<rparr>"
  have len: "length (items ?r) = 1" by simp
  then have len': "length (items ((post ^^ k) ?r)) = 1" by simp
  have "total_serves ((post ^^ k) ?r) = sint (of_nat k :: 32 word)"
    unfolding total_serves_single [OF len'] single_item_run [OF len] by simp
  moreover have "state_after (calls k (New [''a''])) = Inr ((post ^^ k) ?r)"
    using calls_New [of "[''a'']" DefaultOptions k] unfolding New_def
    by (auto simp: state_after_def)
  ultimately show ?thesis by simp
qed

subsection \<open>The order of service before the cursor wraps\<close>

lemma slot_before_wrap:
  assumes "q < 4294967295"
  shows "slot (1 + of_nat q) n = q mod n"
proof -
  have "unat (of_nat q :: 32 word) = q"
    by (rule of_nat_inverse [OF refl]) (use assms in simp)
  then have u: "unat (1 + of_nat q :: 32 word) = Suc q"
    using assms by (simp add: unat_word_ariths)
  then have "(1 + of_nat q :: 32 word) \<noteq> 0" by (metis Zero_not_Suc unat_0)
  then show ?thesis by (simp add: slot_def u del: of_nat_Suc)
qed

text \<open>Before the cursor wraps the calls go round the registry, \<open>H\<close> calls to an item.\<close>

lemma round_robin_before_wrap:
  assumes "its \<noteq> []" and "RotateAmount options \<noteq> 0" and "j < k"
    and "j div unat (RotateAmount options) < 4294967295"
  shows "returned_at j (calls k (NewWithOptions options its)) =
     Inr (first_seen its ! ((j div unat (RotateAmount options)) mod length (first_seen its)))"
  unfolding returned_at_calls [OF assms(1-3)] slot_before_wrap [OF assms(4)] ..

lemma cyc_period: "0 < H \<Longrightarrow> cyc H n (j + H * n) = cyc H n j"
  by (simp add: cyc_def div_add_self2 add.commute mult.commute)

lemma count_window_shift:
  assumes "0 < P" and per: "\<And>j. f (j + P) = f j"
  shows "length (filter (\<lambda>j. f j = i) [Suc m..<Suc m + P]) =
     length (filter (\<lambda>j. f j = (i::nat)) [m..<m + P])"
proof -
  have a: "[m..<m + P] = m # [Suc m..<m + P]" using assms(1) by (simp add: upt_conv_Cons)
  have b: "[Suc m..<Suc m + P] = [Suc m..<m + P] @ [m + P]" using assms(1) by simp
  show ?thesis unfolding a b by (simp add: per)
qed

lemma count_window:
  assumes "0 < P" and per: "\<And>j. f (j + P) = f j"
  shows "length (filter (\<lambda>j. f j = (i::nat)) [m..<m + P]) =
     length (filter (\<lambda>j. f j = i) [0..<P])"
proof (induction m)
  case 0
  show ?case by simp
next
  case (Suc m)
  then show ?case using count_window_shift [of P f i m, OF assms] by simp
qed

lemma count_first_window:
  assumes "0 < H" "i < n"
  shows "length (filter (\<lambda>j. cyc H n j = i) [0..<H * n]) = H"
proof -
  have iff: "j < H * n \<and> cyc H n j = i \<longleftrightarrow> i * H \<le> j \<and> j < i * H + H" for j
  proof
    assume "j < H * n \<and> cyc H n j = i"
    then have j: "j < H * n" and c: "cyc H n j = i" by simp_all
    have "j div H < n" using j assms(1) by (simp add: less_mult_imp_div_less mult.commute)
    then have d: "j div H = i" using c by (simp add: cyc_def)
    have "j div H * H \<le> j" by simp
    moreover have "j < H + j div H * H" using assms(1) by (rule dividend_less_div_times)
    ultimately show "i * H \<le> j \<and> j < i * H + H" unfolding d by simp
  next
    assume "i * H \<le> j \<and> j < i * H + H"
    then have lo: "H * i \<le> j" and hi: "j < H * Suc i" by (simp_all add: mult.commute)
    have d: "j div H = i" using lo hi by (rule div_nat_eqI)
    have "Suc i \<le> n" using assms(2) by simp
    then have "H * Suc i \<le> H * n" by (rule mult_le_mono2)
    then have "j < H * n" using hi by linarith
    then show "j < H * n \<and> cyc H n j = i" using d assms(2) by (simp add: cyc_def)
  qed
  have "length (filter (\<lambda>j. cyc H n j = i) [0..<H * n]) =
      card (set (filter (\<lambda>j. cyc H n j = i) [0..<H * n]))"
    by (rule distinct_card [symmetric]) simp
  also have "set (filter (\<lambda>j. cyc H n j = i) [0..<H * n]) = {i * H..<i * H + H}"
  proof (rule set_eqI)
    fix j
    have "j \<in> set (filter (\<lambda>j. cyc H n j = i) [0..<H * n]) \<longleftrightarrow> j < H * n \<and> cyc H n j = i"
      by simp
    also have "\<dots> \<longleftrightarrow> i * H \<le> j \<and> j < i * H + H" by (rule iff)
    also have "\<dots> \<longleftrightarrow> j \<in> {i * H..<i * H + H}" by simp
    finally show "j \<in> set (filter (\<lambda>j. cyc H n j = i) [0..<H * n]) \<longleftrightarrow> j \<in> {i * H..<i * H + H}" .
  qed
  also have "card {i * H..<i * H + H} = H" by simp
  finally show ?thesis .
qed

lemma cyc_less: "0 < n \<Longrightarrow> cyc H n j < n"
  by (simp add: cyc_def)

lemma count_cyc_window:
  assumes "0 < H" "i < n"
  shows "length (filter (\<lambda>j. cyc H n j = i) [m..<m + H * n]) = H"
proof -
  have P: "0 < H * n" using assms by simp
  have "length (filter (\<lambda>j. cyc H n j = i) [m..<m + H * n]) =
      length (filter (\<lambda>j. cyc H n j = i) [0..<H * n])"
    by (rule count_window [OF P]) (rule cyc_period [OF assms(1)])
  then show ?thesis by (simp only: count_first_window [OF assms])
qed

lemma count_list_cyc:
  assumes d: "distinct vals" and i: "i < length vals" and H: "0 < H"
  shows "count_list (map (\<lambda>j. vals ! cyc H (length vals) j) js) (vals ! i) =
     length (filter (\<lambda>j. cyc H (length vals) j = i) js)"
proof (induction js)
  case Nil
  show ?case by simp
next
  case (Cons j js)
  have "cyc H (length vals) j < length vals" by (rule cyc_less) (use i in linarith)
  then have "vals ! cyc H (length vals) j = vals ! i \<longleftrightarrow> cyc H (length vals) j = i"
    using d i by (simp add: nth_eq_iff_index_eq)
  then show ?case using Cons by simp
qed

text \<open>
  Before the cursor wraps every block of \<open>H * n\<close> consecutive calls returns every item
  \<open>H\<close> times, wherever the block starts.
\<close>

lemma fair_blocks_before_wrap:
  fixes options :: Options and its :: "string list"
  defines "H \<equiv> unat (RotateAmount options)" and "n \<equiv> length (first_seen its)"
  assumes its: "its \<noteq> []" and h: "RotateAmount options \<noteq> 0"
    and bound: "m + H * n \<le> H * 4294967295"
  shows "\<exists>served r. calls (m + H * n) (NewWithOptions options its) = Inr (served, r) \<and>
     length served = m + H * n \<and>
     (\<forall>v \<in> set its. count_list (map Value (drop m served)) v = H)"
proof -
  let ?vals = "first_seen its"
  have Hpos: "0 < H" using h by (simp add: H_def unat_gt_0)
  from calls_New [OF its h, of "m + H * n"] obtain served r where
    run: "calls (m + H * n) (NewWithOptions options its) = Inr (served, r)"
    and len: "length served = m + H * n"
    and val: "\<forall>j<m + H * n. Value (served ! j) = ?vals ! slot (1 + of_nat (j div H)) n"
    unfolding H_def n_def by blast
  have nth: "Value (served ! j) = ?vals ! cyc H n j" if "j < m + H * n" for j
  proof -
    have "j < H * 4294967295" using that bound by linarith
    then have "j div H < 4294967295" using Hpos
      by (simp add: less_mult_imp_div_less mult.commute)
    then show ?thesis using val that by (simp add: slot_before_wrap cyc_def)
  qed
  have block: "map Value (drop m served) = map (\<lambda>j. ?vals ! cyc H n j) [m..<m + H * n]"
  proof (rule nth_equalityI)
    show "length (map Value (drop m served)) = length (map (\<lambda>j. ?vals ! cyc H n j) [m..<m + H * n])"
      by (simp add: len)
  next
    fix t assume "t < length (map Value (drop m served))"
    then have t: "t < H * n" by (simp add: len)
    then have "map Value (drop m served) ! t = Value (served ! (m + t))"
      by (simp add: len del: Value_eq)
    also have "\<dots> = ?vals ! cyc H n (m + t)" using t by (intro nth) simp
    finally show "map Value (drop m served) ! t = map (\<lambda>j. ?vals ! cyc H n j) [m..<m + H * n] ! t"
      using t by simp
  qed
  have "count_list (map Value (drop m served)) v = H" if "v \<in> set its" for v
  proof -
    from that have "v \<in> set ?vals" by simp
    then obtain i where i: "i < n" "v = ?vals ! i"
      unfolding n_def in_set_conv_nth by blast
    have "count_list (map (\<lambda>j. ?vals ! cyc H n j) [m..<m + H * n]) (?vals ! i) =
        length (filter (\<lambda>j. cyc H n j = i) [m..<m + H * n])"
      unfolding n_def by (rule count_list_cyc) (use i Hpos in \<open>simp_all add: n_def\<close>)
    then show ?thesis unfolding block i(2) by (simp only: count_cyc_window [OF Hpos i(1)])
  qed
  with run len show ?thesis by blast
qed

section \<open>The claims\<close>

subsection \<open>C1: the cyclic order breaks when the cursor wraps\<close>

text \<open>
  C1 says that every block of \<open>h * n\<close> consecutive calls serves every item \<open>h\<close> times,
  whatever number of calls came before. The code at the input \<open>New("a", "b")\<close> followed
  by \<open>2^32 + 1\<close> calls of \<open>Next\<close>: the call \<open>2^32 - 2\<close> returns \<open>b\<close>, and the three
  calls after it, \<open>2^32 - 1\<close>, \<open>2^32\<close> and \<open>2^32 + 1\<close>, all return \<open>a\<close>. The cursor is a
  \<open>uint32\<close>: it reaches \<open>2^32 - 1\<close>, wraps to 0, where the guard serves the first item,
  and goes on to 1, the first item again. (\<open>returned_at j\<close> is the value the call number
  \<open>j + 1\<close> returns.)
\<close>

theorem C1_order_breaks_after_cursor_wrap:
  "returned_at 4294967293 (calls 4294967297 (New [''a'', ''b''])) = Inr ''b'' \<and>
   returned_at 4294967294 (calls 4294967297 (New [''a'', ''b''])) = Inr ''a'' \<and>
   returned_at 4294967295 (calls 4294967297 (New [''a'', ''b''])) = Inr ''a'' \<and>
   returned_at 4294967296 (calls 4294967297 (New [''a'', ''b''])) = Inr ''a''"
  by (simp add: returned_at_ab slot_def)

subsection \<open>C2: the update rule of Next\<close>




subsection \<open>C3: construction\<close>

text \<open>
  C3. \<open>New\<close> and \<open>NewWithOptions\<close> fail, and then with \<open>ErrNoItems\<close> and no instance,
  exactly when the list of items is empty. With at least one item they return an instance
  whose \<open>Items\<close> are the given values without repetitions, each at the place of its
  first occurrence, every one with a serve count of zero.
\<close>

theorem C3_construction:
  "\<forall>c \<in> {New its, NewWithOptions options its}.
     (its = [] \<longrightarrow> c = Inl ErrNoItems) \<and>
     ((\<exists>e. c = Inl e) \<longleftrightarrow> its = []) \<and>
     (its \<noteq> [] \<longrightarrow>
        (\<exists>r. c = Inr r \<and> map Value (Items r) = first_seen its \<and>
             (\<forall>it \<in> set (Items r). ServesCount (Statistics it) = 0)))"
proof (cases "its = []")
  case True
  then show ?thesis by (simp add: New_def NewWithOptions_def)
next
  case False
  then show ?thesis by (auto simp: New_def NewWithOptions_Inr)
qed

theorem C3_construction_witness:
  "New [] = Inl ErrNoItems \<and>
   (\<exists>r. NewWithOptions \<lparr>RotateAmount = 2\<rparr> [''a'', ''b'', ''a''] = Inr r \<and>
        map Value (Items r) = [''a'', ''b''] \<and>
        list_all (\<lambda>it. ServesCount (Statistics it) = 0) (Items r))"
  using C3_construction [of "[]" DefaultOptions]
    C3_construction [of "[''a'', ''b'', ''a'']" "\<lparr>RotateAmount = 2\<rparr>"]
  by (auto simp: list_all_iff)

subsection \<open>C4: serve counts\<close>

text \<open>
  C4, as amended. A call of \<open>Next\<close> on a registry that is not empty returns the item it
  selected, as it is in the registry after the call, with a serve count that is the
  count before plus 1 in \<open>int32\<close> arithmetic: exactly one more, unless the count was
  \<open>2^31 - 1\<close>; every other item is as it was. After \<open>k < 2^31\<close> sequential calls on a
  freshly constructed instance the serve counts of all items add up to \<open>k\<close>. The item
  returned by the first call on a fresh instance has a serve count of 1, and
  \<open>ResetServesCount\<close> leaves a serve count of 0.
\<close>

theorem C4_serve_counts:
  "(Items r \<noteq> [] \<longrightarrow>
      (\<exists>it r' i. Next r = Inr (it, r') \<and> i < length (Items r) \<and>
         it = Items r' ! i \<and> Value it = Value (Items r ! i) \<and>
         ServesCount (Statistics it) = ServesCount (Statistics (Items r ! i)) + 1 \<and>
         (sint (ServesCount (Statistics (Items r ! i))) < 2147483647 \<longrightarrow>
            sint (ServesCount (Statistics it)) =
              sint (ServesCount (Statistics (Items r ! i))) + 1) \<and>
         length (Items r') = length (Items r) \<and>
         (\<forall>j < length (Items r). j \<noteq> i \<longrightarrow> Items r' ! j = Items r ! j))) \<and>
   (NewWithOptions options its = Inr r\<^sub>0 \<and> k < 2147483648 \<longrightarrow>
      (\<exists>served r\<^sub>k. Next_n k r\<^sub>0 = Inr (served, r\<^sub>k) \<and> length served = k \<and>
         total_serves r\<^sub>k = int k)) \<and>
   (NewWithOptions options its = Inr r\<^sub>0 \<longrightarrow>
      (\<exists>it r\<^sub>1. Next r\<^sub>0 = Inr (it, r\<^sub>1) \<and> sint (ServesCount (Statistics it)) = 1)) \<and>
   ServesCount (ResetServesCount s) = 0"
proof (intro conjI impI)
  show "ServesCount (ResetServesCount s) = 0" by (simp add: ResetServesCount_def)
next
  assume "Items r \<noteq> []"
  then have ne: "items r \<noteq> []" by simp
  let ?i = "served_index r"
  let ?it = "bump (items r ! ?i)"
  have lt: "?i < length (Items r)" using served_index_less [OF ne] by simp
  have at: "Items (post r) ! ?i = ?it" using lt by (simp add: items_post)
  have others: "\<forall>j < length (Items r). j \<noteq> ?i \<longrightarrow> Items (post r) ! j = Items r ! j"
    by (simp add: items_post)
  have wrap: "sint (ServesCount (Statistics (Items r ! ?i))) < 2147483647 \<longrightarrow>
      sint (ServesCount (Statistics ?it)) = sint (ServesCount (Statistics (Items r ! ?i))) + 1"
  proof
    let ?c = "ServesCount (Statistics (Items r ! ?i))"
    assume less: "sint ?c < 2147483647"
    have "sint (?c + 1) = signed_take_bit 31 (sint ?c + sint (1 :: 32 word))"
      by (simp add: sint_word_ariths)
    also have "\<dots> = sint ?c + 1"
      using less sint_ge [of ?c] by (simp add: signed_take_bit_int_eq_self)
    finally show "sint (ServesCount (Statistics ?it)) = sint ?c + 1" by simp
  qed
  have "Next r = Inr (?it, post r) \<and> ?i < length (Items r) \<and>
         ?it = Items (post r) ! ?i \<and> Value ?it = Value (Items r ! ?i) \<and>
         ServesCount (Statistics ?it) = ServesCount (Statistics (Items r ! ?i)) + 1 \<and>
         (sint (ServesCount (Statistics (Items r ! ?i))) < 2147483647 \<longrightarrow>
            sint (ServesCount (Statistics ?it)) =
              sint (ServesCount (Statistics (Items r ! ?i))) + 1) \<and>
         length (Items (post r)) = length (Items r) \<and>
         (\<forall>j < length (Items r). j \<noteq> ?i \<longrightarrow> Items (post r) ! j = Items r ! j)"
    using Next_post [OF ne] lt at others wrap by simp
  then show "\<exists>it r' i. Next r = Inr (it, r') \<and> i < length (Items r) \<and>
         it = Items r' ! i \<and> Value it = Value (Items r ! i) \<and>
         ServesCount (Statistics it) = ServesCount (Statistics (Items r ! i)) + 1 \<and>
         (sint (ServesCount (Statistics (Items r ! i))) < 2147483647 \<longrightarrow>
            sint (ServesCount (Statistics it)) =
              sint (ServesCount (Statistics (Items r ! i))) + 1) \<and>
         length (Items r') = length (Items r) \<and>
         (\<forall>j < length (Items r). j \<noteq> i \<longrightarrow> Items r' ! j = Items r ! j)"
    by blast
next
  assume "NewWithOptions options its = Inr r\<^sub>0 \<and> k < 2147483648"
  then have new: "NewWithOptions options its = Inr r\<^sub>0" and k: "k < 2147483648" by simp_all
  have ne: "items r\<^sub>0 \<noteq> []" using registry_inv_new [OF new] by (simp add: registry_inv_def)
  have zero: "serves_nat r\<^sub>0 = 0" by (rule serves_nat_new [OF new])
  have "serves_nat r\<^sub>0 + k \<le> 4294967295" using zero k by linarith
  from serves_nat_funpow_post [OF ne this] zero
  have "serves_nat ((post ^^ k) r\<^sub>0) = k" by simp
  moreover from this k have "serves_nat ((post ^^ k) r\<^sub>0) < 2147483648" by simp
  ultimately have "total_serves ((post ^^ k) r\<^sub>0) = int k"
    using total_serves_small by simp
  with Next_n_post [OF ne, of k]
  show "\<exists>served r\<^sub>k. Next_n k r\<^sub>0 = Inr (served, r\<^sub>k) \<and> length served = k \<and>
         total_serves r\<^sub>k = int k"
    by simp
next
  assume new: "NewWithOptions options its = Inr r\<^sub>0"
  have ne: "items r\<^sub>0 \<noteq> []" using registry_inv_new [OF new] by (simp add: registry_inv_def)
  have "unat (ServesCount (Statistics (items r\<^sub>0 ! served_index r\<^sub>0))) \<le> serves_nat r\<^sub>0"
    by (rule unat_le_serves_nat [OF served_index_less [OF ne]])
  then have "ServesCount (Statistics (items r\<^sub>0 ! served_index r\<^sub>0)) = 0"
    by (simp add: serves_nat_new [OF new] unat_eq_0)
  then have "sint (ServesCount (Statistics (bump (items r\<^sub>0 ! served_index r\<^sub>0)))) = 1"
    by simp
  with Next_post [OF ne]
  show "\<exists>it r\<^sub>1. Next r\<^sub>0 = Inr (it, r\<^sub>1) \<and> sint (ServesCount (Statistics it)) = 1"
    by blast
qed

text \<open>The theorem at \<open>New("a", "b")\<close>: three calls, and the first call.\<close>

theorem C4_serve_counts_witness:
  "(\<exists>served r\<^sub>3. Next_n 3 \<lparr>items = [new_item ''a'', new_item ''b''], itemsMap = {''a'', ''b''},
         nextItemIndex = 1, currentItemServesCount = 0, Options = DefaultOptions\<rparr>
       = Inr (served, r\<^sub>3) \<and> length served = 3 \<and> total_serves r\<^sub>3 = 3) \<and>
   (\<exists>it r\<^sub>1. Next \<lparr>items = [new_item ''a'', new_item ''b''], itemsMap = {''a'', ''b''},
         nextItemIndex = 1, currentItemServesCount = 0, Options = DefaultOptions\<rparr>
       = Inr (it, r\<^sub>1) \<and> sint (ServesCount (Statistics it)) = 1)"
proof -
  let ?r = "\<lparr>items = [new_item ''a'', new_item ''b''], itemsMap = {''a'', ''b''},
         nextItemIndex = 1, currentItemServesCount = 0, Options = DefaultOptions\<rparr>"
  have new: "NewWithOptions DefaultOptions [''a'', ''b''] = Inr ?r"
    by (simp add: NewWithOptions_Inr)
  note inst = C4_serve_counts [of ?r DefaultOptions "[''a'', ''b'']" ?r 3]
  have A: "\<exists>served r\<^sub>k. Next_n 3 ?r = Inr (served, r\<^sub>k) \<and> length served = 3 \<and>
         total_serves r\<^sub>k = int 3"
    by (rule inst [THEN conjunct2, THEN conjunct1, THEN mp]) (simp add: new)
  have B: "\<exists>it r\<^sub>1. Next ?r = Inr (it, r\<^sub>1) \<and> sint (ServesCount (Statistics it)) = 1"
    by (rule inst [THEN conjunct2, THEN conjunct2, THEN conjunct1, THEN mp]) (rule new)
  from A B show ?thesis by simp
qed

text \<open>
  The claim as it was stated, that after \<open>k\<close> calls the serve counts add up to \<open>k\<close>,
  fails at \<open>New("a")\<close> followed by \<open>k = 2^31\<close> calls: the only serve count has wrapped,
  it is \<open>-2^31\<close>.
\<close>

theorem C4_serve_count_wraps_counterexample:
  "map_sum id total_serves (state_after (calls 2147483648 (New [''a'']))) = Inr (- 2147483648)"
  by (simp add: total_serves_single_a)

subsection \<open>C5: Add keeps a set\<close>

text \<open>
  C5. In every state an instance can reach, the values of the registry are pairwise
  distinct, and they still are after any \<open>Add\<close>. Adding values that are all present
  changes nothing, and adding the same values a second time changes nothing. In general
  \<open>Add\<close> appends the values that were absent, once each, in the order they are first
  seen: \<open>Add("a", "a", "b")\<close> on a registry with neither appends \<open>a\<close> then \<open>b\<close>, and
  on the empty registry gives exactly those two items.
\<close>

theorem C5_add_set_semantics:
  "reachable r \<Longrightarrow>
     distinct (map Value (Items r)) \<and>
     distinct (map Value (Items (Add vs r))) \<and>
     (set vs \<subseteq> set (map Value (Items r)) \<longrightarrow> Add vs r = r) \<and>
     Add vs (Add vs r) = Add vs r \<and>
     map Value (Items (Add vs r)) =
       map Value (Items r) @ first_seen (filter (\<lambda>v. v \<notin> set (map Value (Items r))) vs) \<and>
     (''a'' \<notin> set (map Value (Items r)) \<and> ''b'' \<notin> set (map Value (Items r)) \<longrightarrow>
        map Value (Items (Add [''a'', ''a'', ''b''] r)) = map Value (Items r) @ [''a'', ''b'']) \<and>
     map Value (Items (Add [''a'', ''a'', ''b''] (zero_RoundRobin options))) = [''a'', ''b'']"
proof -
  assume "reachable r"
  then have inv: "itemsMap r = set (map item_value (items r))"
    "distinct (map item_value (items r))"
    using reachable_inv by (simp_all add: registry_inv_def)
  have vals: "map item_value (items (Add us r)) =
      map item_value (items r) @ first_seen (filter (\<lambda>v. v \<notin> itemsMap r) us)" for us
    by (simp add: Add_items [OF inv(1)])
  have z: "itemsMap (zero_RoundRobin options) = set (map item_value (items (zero_RoundRobin options)))"
    by (simp add: zero_RoundRobin_def)
  have "Add vs (Add vs r) = Add vs r"
    by (rule Add_present) (simp add: Add_itemsMap)
  moreover have "set vs \<subseteq> set (map Value (Items r)) \<longrightarrow> Add vs r = r"
    using Add_present [of vs r] by (simp add: inv(1))
  moreover have "map Value (Items (Add [''a'', ''a'', ''b''] (zero_RoundRobin options))) = [''a'', ''b'']"
    using Add_items [OF z, of "[''a'', ''a'', ''b'']"] by (simp add: zero_RoundRobin_def)
  moreover have "''a'' \<notin> set (map Value (Items r)) \<and> ''b'' \<notin> set (map Value (Items r)) \<longrightarrow>
        map Value (Items (Add [''a'', ''a'', ''b''] r)) = map Value (Items r) @ [''a'', ''b'']"
    using inv(1) vals [of "[''a'', ''a'', ''b'']"] by (auto simp del: Add.simps)
  ultimately show ?thesis
    using inv registry_inv_Add [OF inv, of vs] by (simp add: vals)
qed

theorem C5_add_set_semantics_witness:
  "(\<exists>r. New [''x'', ''y''] = Inr r \<and> Add [''y'', ''x'', ''y''] r = r \<and>
        map Value (Items (Add [''a'', ''a'', ''b''] r)) = [''x'', ''y'', ''a'', ''b''] \<and>
        map Value (Items (Add [''y'', ''b'', ''b'', ''x'', ''a''] r)) = [''x'', ''y'', ''b'', ''a''])"
proof -
  let ?r = "\<lparr>items = [new_item ''x'', new_item ''y''], itemsMap = {''x'', ''y''},
      nextItemIndex = 1, currentItemServesCount = 0, Options = DefaultOptions\<rparr>"
  have r: "New [''x'', ''y''] = Inr ?r"
    by (simp add: New_def NewWithOptions_Inr)
  have "reachable ?r" using r unfolding New_def by (rule reachable.constructed)
  from C5_add_set_semantics [OF this, of "[''y'', ''x'', ''y'']"]
    C5_add_set_semantics [OF this, of "[''y'', ''b'', ''b'', ''x'', ''a'']"]
  show ?thesis unfolding r by (simp add: add_value_def new_item_def)
qed

subsection \<open>C6: Next is total and reads inside the registry\<close>

text \<open>
  C6. In every state an instance can reach the registry is not empty, \<open>Next\<close> returns an
  item, and so does every further call of a sequence; the index at which it reads the
  slice is below the length of the registry; and when the index it computed is negative
  or not below the length, it reads at index 0.
\<close>

theorem C6_next_total_in_bounds:
  "reachable r \<Longrightarrow>
     Items r \<noteq> [] \<and>
     (\<exists>it r'. Next r = Inr (it, r')) \<and>
     (\<forall>k. \<exists>served r'. Next_n k r = Inr (served, r') \<and> length served = k) \<and>
     Next r = serve (int (served_index r)) (advance r) \<and>
     served_index r < length (Items r) \<and>
     (computed_index r < 0 \<or> int (length (Items r)) \<le> computed_index r \<longrightarrow>
        served_index r = 0)"
proof -
  assume "reachable r"
  then have ne: "items r \<noteq> []" using reachable_inv by (simp add: registry_inv_def)
  have "computed_index r < 0 \<or> int (length (Items r)) \<le> computed_index r \<longrightarrow>
        served_index r = 0"
    using computed_index_bounds(2) [OF ne] by (simp add: served_index_def)
  moreover have "\<forall>k. \<exists>served r'. Next_n k r = Inr (served, r') \<and> length served = k"
    by (simp add: Next_n_post [OF ne])
  moreover have "\<exists>it r'. Next r = Inr (it, r')" by (simp add: Next_post [OF ne])
  moreover have "Next r = serve (int (served_index r)) (advance r)"
    using ne by (simp add: Next_served)
  ultimately show ?thesis using ne served_index_less [OF ne] by simp
qed

text \<open>
  The theorem at the state \<open>New("a", "b")\<close> is in after \<open>2^32 - 1\<close> calls, where the guard
  is used: the cursor moves on to 0, the computed index is \<open>-1\<close>, and the call reads at
  index 0.
\<close>

theorem C6_next_total_in_bounds_witness:
  "\<exists>served r. calls 4294967295 (New [''a'', ''b'']) = Inr (served, r) \<and>
      nextItemIndex r = 4294967295 \<and> currentItemServesCount r = 1 \<and>
      computed_index r = - 1 \<and> served_index r = 0 \<and> served_index r < length (Items r) \<and>
      (\<exists>it r'. Next r = Inr (it, r'))"
proof -
  let ?r = "\<lparr>items = [new_item ''a'', new_item ''b''], itemsMap = {''a'', ''b''},
      nextItemIndex = 1, currentItemServesCount = 0, Options = DefaultOptions\<rparr>"
  let ?s = "(post ^^ 4294967295) ?r"
  have new: "NewWithOptions DefaultOptions [''a'', ''b''] = Inr ?r"
    by (simp add: NewWithOptions_Inr)
  obtain served where run: "calls 4294967295 (New [''a'', ''b'']) = Inr (served, ?s)"
    using calls_New [of "[''a'', ''b'']" DefaultOptions 4294967295] unfolding New_def by auto
  have "reachable ?r" using new by (rule reachable.constructed)
  then have reach: "reachable ?s" by (rule reachable_funpow_post)
  have "currentItemServesCount ?r = 0" "RotateAmount (Options ?r) \<noteq> 0" by simp_all
  from control_closed_form [OF this, of 4294967295]
  have ctl: "currentItemServesCount ?s = 1" "nextItemIndex ?s = 4294967295" by simp_all
  have "nextItemIndex (advance ?s) = 0" by (simp add: advance_fields ctl)
  then have ci: "computed_index ?s = - 1"
    by (simp add: computed_index_def int_of_uint32_def go_rem_def)
  note inst = C6_next_total_in_bounds [OF reach]
  have tot: "\<exists>it r'. Next ?s = Inr (it, r')"
    by (rule inst [THEN conjunct2, THEN conjunct1])
  have lt: "served_index ?s < length (Items ?s)"
    by (rule inst [THEN conjunct2, THEN conjunct2, THEN conjunct2, THEN conjunct2,
          THEN conjunct1])
  have s0: "served_index ?s = 0"
    by (rule inst [THEN conjunct2, THEN conjunct2, THEN conjunct2, THEN conjunct2,
          THEN conjunct2, THEN mp]) (simp add: ci)
  from run ctl ci s0 lt tot show ?thesis by blast
qed

subsection \<open>C7: the cursor wraps to zero\<close>

text \<open>
  C7 says that the cursor never decreases and never wraps: that it is 1 plus the number
  of advances made so far. The code at the input \<open>New("a", "b")\<close>, whose hold amount is
  1, so that every call but the first advances: after \<open>2^32 - 1\<close> calls the cursor is
  \<open>2^32 - 1\<close>, and after one more call, the advance number \<open>2^32 - 1\<close>, it is 0.
\<close>

theorem C7_cursor_wraps_to_zero:
  "map_sum id nextItemIndex (state_after (calls 4294967295 (New [''a'', ''b'']))) = Inr 4294967295 \<and>
   map_sum id nextItemIndex (state_after (calls 4294967296 (New [''a'', ''b'']))) = Inr 0"
  by (simp add: cursor_after_ab)

subsection \<open>C8: New is NewWithOptions with the default options\<close>




subsection \<open>C9: the hold amount is not validated\<close>

text \<open>
  C9. For a list of items that is not empty and a \<open>RotateAmount\<close> that is zero or
  negative, \<open>NewWithOptions\<close> returns an instance, holding those options, and no error.
\<close>

theorem C9_hold_amount_not_validated:
  "its \<noteq> [] \<Longrightarrow> sint (RotateAmount options) \<le> 0 \<Longrightarrow>
     (\<exists>r. NewWithOptions options its = Inr r \<and> Options r = options) \<and>
     (\<forall>e. NewWithOptions options its \<noteq> Inl e)"
  by (simp add: NewWithOptions_Inr)

theorem C9_hold_amount_not_validated_witness:
  "(\<exists>r. NewWithOptions \<lparr>RotateAmount = - 5\<rparr> [''a''] = Inr r \<and>
        Options r = \<lparr>RotateAmount = - 5\<rparr>) \<and>
   (\<exists>r. NewWithOptions \<lparr>RotateAmount = 0\<rparr> [''a'', ''b''] = Inr r \<and>
        Options r = \<lparr>RotateAmount = 0\<rparr>)"
  using C9_hold_amount_not_validated [of "[''a'']" "\<lparr>RotateAmount = - 5\<rparr>"]
    C9_hold_amount_not_validated [of "[''a'', ''b'']" "\<lparr>RotateAmount = 0\<rparr>"]
  by simp

subsection \<open>C10: Next leaves the registry as it is\<close>

text \<open>
  C10. On a registry that is not empty, which every reachable one is (C6), a call of
  \<open>Next\<close> succeeds and leaves the values of \<open>Items\<close>, their order and their number as
  they were. One item has its statistics incremented by 1, every other item is
  unchanged, and so are the map of values and the options: the state after the call is
  the state before it with new items, cursor and repeat count.
\<close>

theorem C10_next_frame:
  "Items r \<noteq> [] \<Longrightarrow>
     \<exists>it r' i. Next r = Inr (it, r') \<and> i < length (Items r) \<and>
       map Value (Items r') = map Value (Items r) \<and>
       length (Items r') = length (Items r) \<and>
       (\<forall>j < length (Items r). j \<noteq> i \<longrightarrow> Items r' ! j = Items r ! j) \<and>
       Items r' ! i = (Items r ! i)\<lparr>Statistics := IncrementServesCount 1 (Statistics (Items r ! i))\<rparr> \<and>
       itemsMap r' = itemsMap r \<and> Options r' = Options r \<and>
       r' = r\<lparr>items := Items r', nextItemIndex := nextItemIndex r',
                currentItemServesCount := currentItemServesCount r'\<rparr>"
proof -
  assume "Items r \<noteq> []"
  then have ne: "items r \<noteq> []" by simp
  let ?i = "served_index r"
  have lt: "?i < length (Items r)" using served_index_less [OF ne] by simp
  have at: "Items (post r) ! ?i =
      (Items r ! ?i)\<lparr>Statistics := IncrementServesCount 1 (Statistics (Items r ! ?i))\<rparr>"
    using lt by (simp add: items_post bump_def)
  have others: "\<forall>j < length (Items r). j \<noteq> ?i \<longrightarrow> Items (post r) ! j = Items r ! j"
    by (simp add: items_post)
  have rec: "post r = r\<lparr>items := Items (post r), nextItemIndex := nextItemIndex (post r),
                currentItemServesCount := currentItemServesCount (post r)\<rparr>"
    by (simp add: post_def advance_def Let_def)
  have "Next r = Inr (bump (items r ! ?i), post r) \<and> ?i < length (Items r) \<and>
       map Value (Items (post r)) = map Value (Items r) \<and>
       length (Items (post r)) = length (Items r) \<and>
       (\<forall>j < length (Items r). j \<noteq> ?i \<longrightarrow> Items (post r) ! j = Items r ! j) \<and>
       Items (post r) ! ?i =
         (Items r ! ?i)\<lparr>Statistics := IncrementServesCount 1 (Statistics (Items r ! ?i))\<rparr> \<and>
       itemsMap (post r) = itemsMap r \<and> Options (post r) = Options r \<and>
       post r = r\<lparr>items := Items (post r), nextItemIndex := nextItemIndex (post r),
                currentItemServesCount := currentItemServesCount (post r)\<rparr>"
    using Next_post [OF ne] lt at others rec by simp
  then show ?thesis by blast
qed

text \<open>The theorem at a state with two items, a cursor of 2 and a hold amount of 3.\<close>

theorem C10_next_frame_witness:
  "\<exists>it r'. Next \<lparr>items = [new_item ''a'', new_item ''b''], itemsMap = {''a'', ''b''},
         nextItemIndex = 2, currentItemServesCount = 1, Options = \<lparr>RotateAmount = 3\<rparr>\<rparr>
       = Inr (it, r') \<and> map Value (Items r') = [''a'', ''b''] \<and>
       itemsMap r' = {''a'', ''b''} \<and> Options r' = \<lparr>RotateAmount = 3\<rparr>"
  using C10_next_frame [of "\<lparr>items = [new_item ''a'', new_item ''b''], itemsMap = {''a'', ''b''},
         nextItemIndex = 2, currentItemServesCount = 1, Options = \<lparr>RotateAmount = 3\<rparr>\<rparr>"]
  by auto

end
